theory Spec2Isabelle
  imports Main
begin

section \<open>The graph file parser of graph.py\<close>

text \<open>
  \<^verbatim>\<open>parse_graph\<close> opens a text file, iterates over its lines, splits every line into
  whitespace-separated tokens and collects \<^verbatim>\<open>vertex\<close> records into a set and
  \<^verbatim>\<open>edge\<close> records into a list. The embedding follows the Python text step by step.

  A \<^typ>\<open>char\<close> stands for one code point of the decoded text (code points below 256);
  a \<^typ>\<open>string\<close> is a Python \<^verbatim>\<open>str\<close>. The file system is a partial map from paths
  to the decoded text of the file at that path.
\<close>

subsection \<open>Errors\<close>

text \<open>
  \<^verbatim>\<open>open\<close> raises an \<^verbatim>\<open>OSError\<close> when the path cannot be opened; indexing a list
  out of range raises \<^verbatim>\<open>IndexError\<close>. Neither is caught in the source.
\<close>

datatype error = OSError | IndexError

subsection \<open>Strings: whitespace, strip and split\<close>

definition LF :: char where
  "LF = CHR 0x0A"

definition CR :: char where
  "CR = CHR 0x0D"

text \<open>
  \<^verbatim>\<open>str.isspace\<close> on one code point below 256: the ASCII controls TAB, LF, VT, FF, CR,
  the separators FS, GS, RS, US, the space, NEL (0x85) and the no-break space (0xA0).
\<close>

definition isspace :: "char \<Rightarrow> bool" where
  "isspace c = (c \<in> {CHR 0x09, CHR 0x0A, CHR 0x0B, CHR 0x0C, CHR 0x0D,
                     CHR 0x1C, CHR 0x1D, CHR 0x1E, CHR 0x1F, CHR 0x20,
                     CHR 0x85, CHR 0xA0})"

text \<open>\<^verbatim>\<open>line.strip()\<close>: leading and trailing whitespace removed.\<close>

definition strip :: "string \<Rightarrow> string" where
  "strip s = rev (dropWhile isspace (rev (dropWhile isspace s)))"

text \<open>
  \<^verbatim>\<open>s.split()\<close> without a separator: the maximal runs of non-whitespace characters, in
  order; \<open>cur\<close> is the run being read.
\<close>

fun split_from :: "string \<Rightarrow> string \<Rightarrow> string list" where
  "split_from cur [] = (if cur = [] then [] else [cur])"
| "split_from cur (c # cs) =
     (if isspace c then (if cur = [] then split_from [] cs else cur # split_from [] cs)
      else split_from (cur @ [c]) cs)"

definition split :: "string \<Rightarrow> string list" where
  "split s = split_from [] s"

subsection \<open>Reading the file line by line\<close>

text \<open>
  The file is opened in text mode with the default \<^verbatim>\<open>newline=None\<close>: on reading,
  \<^verbatim>\<open>\r\n\<close> and a lone \<^verbatim>\<open>\r\<close> become \<^verbatim>\<open>\n\<close>.
\<close>

fun universal_newlines :: "string \<Rightarrow> string" where
  "universal_newlines [] = []"
| "universal_newlines (c # cs) =
     (if c = CR then
        (case cs of
           [] \<Rightarrow> [LF]
         | d # ds \<Rightarrow> if d = LF then LF # universal_newlines ds else LF # universal_newlines cs)
      else c # universal_newlines cs)"

text \<open>
  \<^verbatim>\<open>for line in file\<close>: every line ends after its \<^verbatim>\<open>\n\<close>, which is kept; a last line
  without \<^verbatim>\<open>\n\<close> is a line too; \<open>cur\<close> is the line being read.
\<close>

fun lines_from :: "string \<Rightarrow> string \<Rightarrow> string list" where
  "lines_from cur [] = (if cur = [] then [] else [cur])"
| "lines_from cur (c # cs) =
     (if c = LF then (cur @ [c]) # lines_from [] cs else lines_from (cur @ [c]) cs)"

definition readlines :: "string \<Rightarrow> string list" where
  "readlines content = lines_from [] (universal_newlines content)"

subsection \<open>parse\_graph\<close>

text \<open>\<^verbatim>\<open>xs[i]\<close> for an index \<open>i \<ge> 0\<close>: \<^verbatim>\<open>IndexError\<close> out of range.\<close>

definition getitem :: "'a list \<Rightarrow> nat \<Rightarrow> error + 'a" where
  "getitem xs i = (if i < length xs then Inr (xs ! i) else Inl IndexError)"

text \<open>The two local variables \<^verbatim>\<open>vertices\<close> (a set) and \<^verbatim>\<open>edges\<close> (a list of pairs).\<close>

type_synonym graph = "string set \<times> (string \<times> string) list"

text \<open>
  The body of the loop, for one line. The tuple \<^verbatim>\<open>(parts[1], parts[2])\<close> is evaluated
  from left to right.
\<close>

definition process_line :: "graph \<Rightarrow> string \<Rightarrow> error + graph" where
  "process_line g line =
     (let parts = split (strip line); vertices = fst g; edges = snd g in
      if parts = [] then Inr (vertices, edges)
      else
        case getitem parts 0 of Inl e \<Rightarrow> Inl e | Inr kind \<Rightarrow>
        if kind = ''vertex'' then
          (case getitem parts 1 of Inl e \<Rightarrow> Inl e
           | Inr v \<Rightarrow> Inr (insert v vertices, edges))
        else if kind = ''edge'' then
          (case getitem parts 1 of Inl e \<Rightarrow> Inl e
           | Inr a \<Rightarrow>
              (case getitem parts 2 of Inl e \<Rightarrow> Inl e
               | Inr b \<Rightarrow> Inr (vertices, edges @ [(a, b)])))
        else Inr (vertices, edges))"

text \<open>The loop: an exception in one line ends the function.\<close>

fun parse_lines :: "graph \<Rightarrow> string list \<Rightarrow> error + graph" where
  "parse_lines g [] = Inr g"
| "parse_lines g (l # ls) =
     (case process_line g l of Inl e \<Rightarrow> Inl e | Inr g' \<Rightarrow> parse_lines g' ls)"

definition parse_graph :: "(string \<rightharpoonup> string) \<Rightarrow> string \<Rightarrow> error + graph" where
  "parse_graph fs file_path =
     (case fs file_path of
        None \<Rightarrow> Inl OSError
      | Some content \<Rightarrow> parse_lines ({}, []) (readlines content))"

subsection \<open>Vocabulary for the properties\<close>

text \<open>The tokens of a line, as the loop body computes them.\<close>

definition parts :: "string \<Rightarrow> string list" where
  "parts line = split (strip line)"

text \<open>A line whose first token is \<^verbatim>\<open>vertex\<close>, respectively \<^verbatim>\<open>edge\<close>.\<close>

definition is_vertex_line :: "string \<Rightarrow> bool" where
  "is_vertex_line l = (case parts l of [] \<Rightarrow> False | k # r \<Rightarrow> k = ''vertex'')"

definition is_edge_line :: "string \<Rightarrow> bool" where
  "is_edge_line l = (case parts l of [] \<Rightarrow> False | k # r \<Rightarrow> k = ''edge'')"

text \<open>The identifier after the first token, and the pair after it, where present.\<close>

definition vertex_of :: "string \<Rightarrow> string option" where
  "vertex_of l = (case parts l of k # a # r \<Rightarrow> Some a | _ \<Rightarrow> None)"

definition edge_of :: "string \<Rightarrow> (string \<times> string) option" where
  "edge_of l = (case parts l of k # a # b # r \<Rightarrow> Some (a, b) | _ \<Rightarrow> None)"

text \<open>A blank line, or a line whose first token is neither \<^verbatim>\<open>vertex\<close> nor \<^verbatim>\<open>edge\<close>.\<close>

definition ignored :: "string \<Rightarrow> bool" where
  "ignored l = (\<not> is_vertex_line l \<and> \<not> is_edge_line l)"

text \<open>
  \<open>inserted ls ls'\<close>: the sequence of lines \<open>ls'\<close> is \<open>ls\<close> with ignored lines inserted
  at any positions. A line that is kept has the same tokens in both sequences; its
  whitespace may differ, as it does for a last line without \<^verbatim>\<open>\n\<close> that gets its
  \<^verbatim>\<open>\n\<close> when a line is put after it.
\<close>

inductive inserted :: "string list \<Rightarrow> string list \<Rightarrow> bool" where
  inserted_Nil: "inserted [] []"
| inserted_keep: "parts l = parts l' \<Longrightarrow> inserted ls ls' \<Longrightarrow> inserted (l # ls) (l' # ls')"
| inserted_new: "ignored l \<Longrightarrow> inserted ls ls' \<Longrightarrow> inserted ls (l # ls')"

text \<open>
  The tokens of a line that the record kind requires: the kind and one identifier for
  \<^verbatim>\<open>vertex\<close>, the kind and two identifiers for \<^verbatim>\<open>edge\<close>.
\<close>

definition required :: "string \<Rightarrow> string list" where
  "required l =
     (case parts l of
        [] \<Rightarrow> []
      | k # r \<Rightarrow>
          if k = ''vertex'' then k # take 1 r
          else if k = ''edge'' then k # take 2 r
          else k # r)"

text \<open>
  A line that lacks a token its record kind reads: \<^verbatim>\<open>vertex\<close> without an identifier,
  \<^verbatim>\<open>edge\<close> with fewer than two.
\<close>

definition malformed :: "string \<Rightarrow> bool" where
  "malformed l =
     (case parts l of
        [] \<Rightarrow> False
      | k # r \<Rightarrow> (k = ''vertex'' \<and> length r < 1) \<or> (k = ''edge'' \<and> length r < 2))"

text \<open>The identifiers of the \<^verbatim>\<open>vertex\<close> lines, in file order, with their repetitions.\<close>

definition vertex_ids :: "string list \<Rightarrow> string list" where
  "vertex_ids ls = List.map_filter vertex_of (filter is_vertex_line ls)"

section \<open>The loop body, case by case\<close>

lemma process_line_blank: "parts l = [] \<Longrightarrow> process_line g l = Inr g"
  by (simp add: process_line_def parts_def)

lemma process_line_vertex:
  "parts l = ''vertex'' # a # r \<Longrightarrow> process_line (vs, es) l = Inr (insert a vs, es)"
  by (simp add: process_line_def parts_def getitem_def)

lemma process_line_vertex_short:
  "parts l = [''vertex''] \<Longrightarrow> process_line g l = Inl IndexError"
  by (simp add: process_line_def parts_def getitem_def)

lemma process_line_edge:
  "parts l = ''edge'' # a # b # r \<Longrightarrow> process_line (vs, es) l = Inr (vs, es @ [(a, b)])"
  by (simp add: process_line_def parts_def getitem_def)

lemma process_line_edge_one:
  "parts l = [''edge'', a] \<Longrightarrow> process_line g l = Inl IndexError"
  by (simp add: process_line_def parts_def getitem_def)

lemma process_line_edge_none:
  "parts l = [''edge''] \<Longrightarrow> process_line g l = Inl IndexError"
  by (simp add: process_line_def parts_def getitem_def)

lemma process_line_other:
  "parts l = k # r \<Longrightarrow> k \<noteq> ''vertex'' \<Longrightarrow> k \<noteq> ''edge'' \<Longrightarrow> process_line g l = Inr g"
  by (simp add: process_line_def parts_def getitem_def)

lemma process_line_ignored: "ignored l \<Longrightarrow> process_line g l = Inr g"
  by (cases "parts l")
     (auto simp: ignored_def is_vertex_line_def is_edge_line_def
           intro: process_line_blank process_line_other)

lemma process_line_error: "process_line g l = Inl e \<Longrightarrow> e = IndexError"
  by (auto simp: process_line_def getitem_def Let_def split: if_splits)

section \<open>The loop\<close>

lemma parse_lines_error: "parse_lines g ls = Inl e \<Longrightarrow> e = IndexError"
  by (induction ls arbitrary: g) (auto split: sum.splits dest: process_line_error)

text \<open>Whether a line fails does not depend on what has been collected so far.\<close>

lemma process_line_fails_any:
  "process_line g l = Inl e \<Longrightarrow> process_line g' l = Inl e"
  by (auto simp: process_line_def getitem_def Let_def split: if_splits)

lemma parse_lines_fails:
  "l \<in> set ls \<Longrightarrow> process_line g0 l = Inl IndexError \<Longrightarrow> parse_lines g ls = Inl IndexError"
proof (induction ls arbitrary: g)
  case Nil
  then show ?case by simp
next
  case (Cons x xs)
  show ?case
  proof (cases "process_line g x")
    case (Inl e)
    then show ?thesis by (simp add: process_line_error [OF Inl])
  next
    case (Inr g')
    with Cons.prems have "l \<noteq> x"
      using process_line_fails_any [of g0 l IndexError g] by auto
    with Cons.prems have "l \<in> set xs" by simp
    with Cons.IH Cons.prems(2) Inr show ?thesis by simp
  qed
qed

text \<open>Ignored lines inserted anywhere do not change what the loop computes.\<close>

lemma process_line_parts: "parts l = parts l' \<Longrightarrow> process_line g l = process_line g l'"
  by (simp add: process_line_def parts_def)

lemma parse_lines_inserted: "inserted ls ls' \<Longrightarrow> parse_lines g ls = parse_lines g ls'"
proof (induction arbitrary: g rule: inserted.induct)
  case inserted_Nil
  show ?case by simp
next
  case (inserted_keep l l' ls ls')
  from inserted_keep.hyps(1) have "process_line g l = process_line g l'"
    by (rule process_line_parts)
  with inserted_keep.IH show ?case by (simp split: sum.splits)
next
  case (inserted_new l ls ls')
  then show ?case by (simp add: process_line_ignored)
qed

text \<open>The \<^verbatim>\<open>\n\<close> that ends a line is not part of its tokens.\<close>

lemma strip_terminated:
  assumes "isspace c"
  shows "strip (s @ [c]) = strip s"
proof (cases "\<forall>x \<in> set s. isspace x")
  case True
  then have a: "dropWhile isspace s = []" by simp
  from True have "dropWhile isspace (s @ [c]) = dropWhile isspace [c]"
    by (intro dropWhile_append2) simp
  with assms have b: "dropWhile isspace (s @ [c]) = []" by simp
  show ?thesis unfolding strip_def a b by (rule refl)
next
  case False
  then have b: "dropWhile isspace (s @ [c]) = dropWhile isspace s @ [c]"
    by (simp add: dropWhile_append)
  from assms show ?thesis unfolding strip_def b by simp
qed

lemma parts_terminated: "parts (l @ [LF]) = parts l"
  by (simp add: parts_def strip_terminated isspace_def LF_def)

text \<open>What a line that does not fail has done, and what the loop has collected at its end.\<close>

lemma process_line_Inr_cases:
  assumes "process_line (vs, es) l = Inr (vs', es')"
  shows "(is_vertex_line l \<and> \<not> is_edge_line l \<and> (\<exists>a. vertex_of l = Some a \<and> vs' = insert a vs) \<and> es' = es)
       \<or> (is_edge_line l \<and> \<not> is_vertex_line l \<and> (\<exists>a b. edge_of l = Some (a, b) \<and> es' = es @ [(a, b)]) \<and> vs' = vs)
       \<or> (ignored l \<and> vs' = vs \<and> es' = es)"
proof (cases "parts l")
  case Nil
  with assms show ?thesis
    by (simp add: process_line_blank ignored_def is_vertex_line_def is_edge_line_def)
next
  case (Cons k r)
  show ?thesis
  proof (cases "k = ''vertex''")
    case True
    with Cons assms obtain a r' where r: "r = a # r'"
      by (cases r) (auto simp: process_line_vertex_short)
    with True Cons assms show ?thesis
      by (simp add: process_line_vertex is_vertex_line_def is_edge_line_def vertex_of_def)
  next
    case False
    note nv = this
    show ?thesis
    proof (cases "k = ''edge''")
      case True
      with Cons assms obtain a b r' where r: "r = a # b # r'"
        by (cases r; cases "tl r") (auto simp: process_line_edge_none process_line_edge_one)
      with True Cons assms show ?thesis
        by (simp add: process_line_edge is_vertex_line_def is_edge_line_def edge_of_def)
    next
      case False
      with nv Cons assms show ?thesis
        by (simp add: process_line_other ignored_def is_vertex_line_def is_edge_line_def)
    qed
  qed
qed

lemma parse_lines_Inr:
  "parse_lines (vs, es) ls = Inr (vs', es') \<Longrightarrow>
     map Some es' = map Some es @ map edge_of (filter is_edge_line ls) \<and>
     vs' = vs \<union> set (vertex_ids ls)"
proof (induction ls arbitrary: vs es)
  case Nil
  then show ?case by (simp add: vertex_ids_def List.map_filter_simps)
next
  case (Cons l ls)
  from Cons.prems obtain vs1 es1 where
    step: "process_line (vs, es) l = Inr (vs1, es1)" and
    rest: "parse_lines (vs1, es1) ls = Inr (vs', es')"
    by (auto split: sum.splits)
  from Cons.IH [OF rest] have
    ih1: "map Some es' = map Some es1 @ map edge_of (filter is_edge_line ls)" and
    ih2: "vs' = vs1 \<union> set (vertex_ids ls)" by simp_all
  from process_line_Inr_cases [OF step] show ?case
    using ih1 ih2 by (auto simp: vertex_ids_def List.map_filter_simps ignored_def)
qed

text \<open>The loop returns when no line lacks a required token.\<close>

lemma process_line_wf: "\<not> malformed l \<Longrightarrow> \<exists>g'. process_line g l = Inr g'"
  by (auto simp: process_line_def malformed_def parts_def getitem_def Let_def split: list.splits)

lemma parse_lines_wf: "\<forall>l\<in>set ls. \<not> malformed l \<Longrightarrow> \<exists>g'. parse_lines g ls = Inr g'"
proof (induction ls arbitrary: g)
  case Nil
  show ?case by simp
next
  case (Cons l ls)
  then obtain g1 where "process_line g l = Inr g1"
    using process_line_wf [of l g] by auto
  with Cons show ?case by simp
qed

text \<open>The loop body reads the required tokens of a line only.\<close>

lemma process_line_by_required:
  "process_line g l =
     (case required l of
        [] \<Rightarrow> Inr g
      | k # r \<Rightarrow>
          if k = ''vertex'' then
            (case r of [] \<Rightarrow> Inl IndexError | a # r' \<Rightarrow> Inr (insert a (fst g), snd g))
          else if k = ''edge'' then
            (case r of a # b # r' \<Rightarrow> Inr (fst g, snd g @ [(a, b)]) | _ \<Rightarrow> Inl IndexError)
          else Inr g)"
  by (auto simp: process_line_def required_def parts_def getitem_def Let_def take_Suc hd_conv_nth
           split: list.splits)

lemma process_line_required:
  "required l = required l' \<Longrightarrow> process_line g l = process_line g l'"
  by (simp only: process_line_by_required)

lemma parse_lines_required:
  "map required ls = map required ls' \<Longrightarrow> parse_lines g ls = parse_lines g ls'"
proof (induction ls arbitrary: ls' g)
  case Nil
  then show ?case by simp
next
  case (Cons l ls)
  then obtain m ms where ls': "ls' = m # ms" and "required l = required m"
    and "map required ls = map required ms" by (cases ls') auto
  with Cons.IH [of ms] show ?case
    by (simp add: process_line_required [of l m] split: sum.splits)
qed

text \<open>Counting the occurrences of an element in a mapped list.\<close>

lemma count_list_map_Some: "count_list (map Some xs) (Some x) = count_list xs x"
  by (induction xs) auto

lemma count_list_map_filter: "count_list (map f xs) y = length (filter (\<lambda>x. f x = y) xs)"
  by (induction xs) auto

section \<open>Inserting a line into the text\<close>

text \<open>
  The text of an ignored line, put at the start of the file or after a \<^verbatim>\<open>\n\<close>, is one
  more line for the loop and leaves the other lines as they are.
\<close>

lemma universal_newlines_append:
  "xs = [] \<or> last xs \<noteq> CR \<Longrightarrow>
     universal_newlines (xs @ ys) = universal_newlines xs @ universal_newlines ys"
proof (induction xs rule: universal_newlines.induct)
  case 1
  show ?case by simp
next
  case (2 c cs)
  show ?case
  proof (cases "c = CR")
    case False
    with 2 show ?thesis by (auto split: if_splits)
  next
    case True
    note c = this
    show ?thesis
    proof (cases cs)
      case Nil
      with c 2 show ?thesis by simp
    next
      case (Cons d ds)
      with c 2 show ?thesis by (cases "d = LF") (auto split: if_splits)
    qed
  qed
qed

lemma universal_newlines_id: "CR \<notin> set xs \<Longrightarrow> universal_newlines xs = xs"
  by (induction xs) auto

lemma universal_newlines_Nil: "universal_newlines xs = [] \<longleftrightarrow> xs = []"
  by (cases xs) (simp_all split: list.split)

lemma universal_newlines_last_kept:
  "xs \<noteq> [] \<Longrightarrow> last xs \<noteq> CR \<Longrightarrow> last (universal_newlines xs) = last xs"
proof (induction xs rule: universal_newlines.induct)
  case 1
  then show ?case by simp
next
  case (2 c cs)
  show ?case
  proof (cases "c = CR")
    case False
    show ?thesis
    proof (cases "cs = []")
      case True
      with False show ?thesis by simp
    next
      case ne: False
      with 2 False have "last (universal_newlines cs) = last cs" by simp
      with False ne show ?thesis by (simp add: universal_newlines_Nil)
    qed
  next
    case True
    note c = this
    show ?thesis
    proof (cases cs)
      case Nil
      with c 2 show ?thesis by simp
    next
      case (Cons d ds)
      show ?thesis
      proof (cases "d = LF")
        case True
        show ?thesis
        proof (cases "ds = []")
          case True
          with c Cons \<open>d = LF\<close> show ?thesis by simp
        next
          case False
          with 2 c Cons \<open>d = LF\<close> have "last (universal_newlines ds) = last ds" by simp
          with c Cons \<open>d = LF\<close> False show ?thesis by (simp add: universal_newlines_Nil)
        qed
      next
        case False
        with 2 c Cons have "last (universal_newlines cs) = last cs" by simp
        moreover from Cons have "universal_newlines cs \<noteq> []"
          by (simp only: universal_newlines_Nil) simp
        ultimately show ?thesis using c Cons False by simp
      qed
    qed
  qed
qed

lemma universal_newlines_last:
  "xs \<noteq> [] \<Longrightarrow> last xs = LF \<Longrightarrow> last (universal_newlines xs) = LF"
  using universal_newlines_last_kept [of xs] by (simp add: LF_def CR_def)

lemma lines_from_append:
  "xs \<noteq> [] \<Longrightarrow> last xs = LF \<Longrightarrow>
     lines_from cur (xs @ ys) = lines_from cur xs @ lines_from [] ys"
  by (induction xs arbitrary: cur) (auto split: if_splits)

lemma lines_from_single: "LF \<notin> set l \<Longrightarrow> lines_from cur (l @ [LF]) = [cur @ l @ [LF]]"
  by (induction l arbitrary: cur) auto

lemma readlines_append:
  assumes "pre = [] \<or> last pre = LF"
  shows "readlines (pre @ post) = readlines pre @ readlines post"
proof (cases "pre = []")
  case True
  then show ?thesis by (simp add: readlines_def)
next
  case False
  with assms have l: "last pre = LF" by simp
  then have "last pre \<noteq> CR" by (simp add: LF_def CR_def)
  then have "universal_newlines (pre @ post) = universal_newlines pre @ universal_newlines post"
    by (simp add: universal_newlines_append)
  moreover from False have "universal_newlines pre \<noteq> []"
    by (simp add: universal_newlines_Nil)
  moreover note universal_newlines_last [OF False l]
  ultimately show ?thesis
    by (simp add: readlines_def lines_from_append)
qed

lemma readlines_line:
  assumes "LF \<notin> set l" and "CR \<notin> set l"
  shows "readlines (l @ [LF]) = [l @ [LF]]"
proof -
  from assms(2) have "CR \<notin> set (l @ [LF])" by (simp add: LF_def CR_def)
  then have "universal_newlines (l @ [LF]) = l @ [LF]" by (rule universal_newlines_id)
  with lines_from_single [OF assms(1), of "[]"] show ?thesis by (simp add: readlines_def)
qed

lemma inserted_refl: "inserted ls ls"
  by (induction ls) (auto intro: inserted.intros)

lemma inserted_prepend: "inserted xs ys \<Longrightarrow> inserted (zs @ xs) (zs @ ys)"
  by (induction zs) (auto intro: inserted.intros)

lemma inserted_text_line:
  assumes "pre = [] \<or> last pre = LF" and "LF \<notin> set l" and "CR \<notin> set l"
    and "ignored (l @ [LF])"
  shows "inserted (readlines (pre @ post)) (readlines (pre @ (l @ [LF]) @ post))"
proof -
  have "readlines ((l @ [LF]) @ post) = readlines (l @ [LF]) @ readlines post"
    by (rule readlines_append) simp
  then have "readlines (pre @ (l @ [LF]) @ post) = readlines pre @ (l @ [LF]) # readlines post"
    using assms(1-3) by (simp add: readlines_append [of pre] readlines_line)
  moreover have "readlines (pre @ post) = readlines pre @ readlines post"
    using assms(1) by (rule readlines_append)
  moreover have "inserted (readlines post) ((l @ [LF]) # readlines post)"
    using assms(4) by (intro inserted_new inserted_refl)
  ultimately show ?thesis by (simp add: inserted_prepend)
qed

text \<open>
  Text put after a last line that has no \<^verbatim>\<open>\n\<close>: the last line gets its \<^verbatim>\<open>\n\<close> and
  keeps its tokens, and the lines of the text follow it.
\<close>

lemma lines_from_unterminated:
  "xs \<noteq> [] \<Longrightarrow> last xs \<noteq> LF \<Longrightarrow>
     \<exists>ys t. lines_from cur xs = ys @ [t] \<and> lines_from cur (xs @ [LF]) = ys @ [t @ [LF]]"
proof (induction xs arbitrary: cur)
  case Nil
  then show ?case by simp
next
  case (Cons c cs)
  show ?case
  proof (cases "cs = []")
    case True
    with Cons.prems have "c \<noteq> LF" by simp
    with True have "lines_from cur (c # cs) = [] @ [cur @ [c]] \<and>
      lines_from cur ((c # cs) @ [LF]) = [] @ [(cur @ [c]) @ [LF]]" by simp
    then show ?thesis by blast
  next
    case False
    with Cons.prems have l: "last cs \<noteq> LF" by simp
    show ?thesis
    proof (cases "c = LF")
      case True
      from Cons.IH [OF False l, of "[]"] obtain ys t where
        "lines_from [] cs = ys @ [t]" "lines_from [] (cs @ [LF]) = ys @ [t @ [LF]]" by blast
      with True have "lines_from cur (c # cs) = ((cur @ [c]) # ys) @ [t] \<and>
        lines_from cur ((c # cs) @ [LF]) = ((cur @ [c]) # ys) @ [t @ [LF]]" by simp
      then show ?thesis by blast
    next
      case ne: False
      from Cons.IH [OF False l, of "cur @ [c]"] obtain ys t where
        "lines_from (cur @ [c]) cs = ys @ [t]"
        "lines_from (cur @ [c]) (cs @ [LF]) = ys @ [t @ [LF]]" by blast
      with ne have "lines_from cur (c # cs) = ys @ [t] \<and>
        lines_from cur ((c # cs) @ [LF]) = ys @ [t @ [LF]]" by simp
      then show ?thesis by blast
    qed
  qed
qed

lemma inserted_only_ignored: "\<forall>x \<in> set zs. ignored x \<Longrightarrow> inserted [] zs"
  by (induction zs) (auto intro: inserted.intros)

lemma inserted_text_after_last:
  assumes "content \<noteq> []" and "last content \<noteq> LF" and "last content \<noteq> CR"
    and "\<forall>x \<in> set (readlines t). ignored x"
  shows "inserted (readlines content) (readlines (content @ [LF] @ t))"
proof -
  let ?u = "universal_newlines content"
  from assms(1) have ne: "?u \<noteq> []" by (simp add: universal_newlines_Nil)
  from assms(1,3) have "last ?u = last content" by (rule universal_newlines_last_kept)
  with assms(2) have "last ?u \<noteq> LF" by simp
  from lines_from_unterminated [OF ne this, of "[]"] obtain ys l where
    a: "lines_from [] ?u = ys @ [l]" and b: "lines_from [] (?u @ [LF]) = ys @ [l @ [LF]]"
    by blast
  from assms(3) have "universal_newlines (content @ [LF]) = ?u @ [LF]"
    by (simp add: universal_newlines_append LF_def CR_def)
  with b have c: "readlines (content @ [LF]) = ys @ [l @ [LF]]" by (simp add: readlines_def)
  have "readlines ((content @ [LF]) @ t) = readlines (content @ [LF]) @ readlines t"
    by (rule readlines_append) simp
  with c have d: "readlines (content @ [LF] @ t) = ys @ (l @ [LF]) # readlines t" by simp
  from a have e: "readlines content = ys @ [l]" by (simp add: readlines_def)
  have "parts l = parts (l @ [LF])" by (simp add: parts_terminated)
  then have "inserted [l] ((l @ [LF]) # readlines t)"
    using inserted_only_ignored [OF assms(4)] by (rule inserted_keep)
  then have "inserted (ys @ [l]) (ys @ (l @ [LF]) # readlines t)" by (rule inserted_prepend)
  with d e show ?thesis by simp
qed

section \<open>Evaluation of concrete inputs\<close>

lemmas eval_defs = parse_graph_def readlines_def process_line_def split_def strip_def
  isspace_def LF_def CR_def getitem_def

lemmas line_defs = parts_def split_def strip_def isspace_def is_vertex_line_def
  is_edge_line_def vertex_of_def edge_of_def

section \<open>Properties of the parser\<close>

text \<open>
  C1. Parsing the file content \<^verbatim>\<open>vertex A\nvertex B\nedge A B\n\<close> returns the vertex set
  \<open>{A, B}\<close> and the edge sequence \<open>[(A, B)]\<close>.
\<close>

theorem parse_graph_example:
  "parse_graph [p \<mapsto> ''vertex A\<newline>vertex B\<newline>edge A B\<newline>''] p =
     Inr ({''A'', ''B''}, [(''A'', ''B'')])"
  by (simp add: eval_defs insert_commute)

text \<open>
  C2. Whenever the file has a line whose tokens are \<^verbatim>\<open>edge\<close> and exactly one further
  token, \<^verbatim>\<open>parse_graph\<close> fails with an \<^verbatim>\<open>IndexError\<close>: the line is neither accepted
  nor skipped.
\<close>

theorem edge_missing_argument_fails:
  assumes "fs file_path = Some content"
    and "line \<in> set (readlines content)"
    and "split (strip line) = [''edge'', x]"
  shows "parse_graph fs file_path = Inl IndexError"
proof -
  from assms(3) have "process_line ({}, []) line = Inl IndexError"
    by (simp add: process_line_edge_one parts_def)
  with assms(2) have "parse_lines ({}, []) (readlines content) = Inl IndexError"
    by (rule parse_lines_fails)
  with assms(1) show ?thesis by (simp add: parse_graph_def)
qed

theorem edge_missing_argument_fails_witness:
  "parse_graph [''graph.txt'' \<mapsto> ''vertex A\<newline>edge onlyone\<newline>vertex B''] ''graph.txt''
     = Inl IndexError"
proof -
  let ?c = "''vertex A\<newline>edge onlyone\<newline>vertex B''"
  have 1: "[''graph.txt'' \<mapsto> ?c] ''graph.txt'' = Some ?c" by simp
  have 2: "''edge onlyone\<newline>'' \<in> set (readlines ?c)"
    by (simp add: readlines_def LF_def CR_def)
  have 3: "split (strip ''edge onlyone\<newline>'') = [''edge'', ''onlyone'']"
    by (simp add: split_def strip_def isspace_def)
  show ?thesis
    using edge_missing_argument_fails
      [of "[''graph.txt'' \<mapsto> ?c]" "''graph.txt''" ?c "''edge onlyone\<newline>''" "''onlyone''",
       OF 1 2 3] .
qed

text \<open>
  C3. When the lines of a second file are the lines of the first with blank lines, or
  lines whose first token is neither \<^verbatim>\<open>vertex\<close> nor \<^verbatim>\<open>edge\<close>, inserted at any
  positions (also after a last line that has no \<^verbatim>\<open>\n\<close>), \<^verbatim>\<open>parse_graph\<close> returns the
  same vertex set and the same edge sequence for both (and fails on one exactly when it
  fails on the other).
\<close>

theorem ignored_lines_no_effect:
  assumes "fs file_path = Some content"
    and "fs' file_path' = Some content'"
    and "inserted (readlines content) (readlines content')"
  shows "parse_graph fs' file_path' = parse_graph fs file_path"
  using assms by (simp add: parse_graph_def parse_lines_inserted)

theorem ignored_lines_no_effect_witness:
  "parse_graph [''b.txt'' \<mapsto> ''\<newline>vertex A\<newline># a comment\<newline>   \<newline>edge A B\<newline>node C\<newline>''] ''b.txt''
     = parse_graph [''a.txt'' \<mapsto> ''vertex A\<newline>edge A B''] ''a.txt''"
proof -
  let ?c = "''vertex A\<newline>edge A B''"
  let ?c' = "''\<newline>vertex A\<newline># a comment\<newline>   \<newline>edge A B\<newline>node C\<newline>''"
  have 1: "[''a.txt'' \<mapsto> ?c] ''a.txt'' = Some ?c" by simp
  have 2: "[''b.txt'' \<mapsto> ?c'] ''b.txt'' = Some ?c'" by simp
  have i1: "ignored ''\<newline>''" by (simp add: ignored_def line_defs)
  have i2: "ignored ''# a comment\<newline>''" by (simp add: ignored_def line_defs)
  have i3: "ignored ''   \<newline>''" by (simp add: ignored_def line_defs)
  have i4: "ignored ''node C\<newline>''" by (simp add: ignored_def line_defs)
  have k1: "parts ''vertex A\<newline>'' = parts ''vertex A\<newline>''" by (rule refl)
  have k2: "parts ''edge A B'' = parts ''edge A B\<newline>''" by (simp add: line_defs)
  have r: "readlines ?c = [''vertex A\<newline>'', ''edge A B'']"
    by (simp add: readlines_def LF_def CR_def)
  have r': "readlines ?c' = [''\<newline>'', ''vertex A\<newline>'', ''# a comment\<newline>'', ''   \<newline>'',
      ''edge A B\<newline>'', ''node C\<newline>'']"
    by (simp add: readlines_def LF_def CR_def)
  have 3: "inserted (readlines ?c) (readlines ?c')"
    unfolding r r'
    by (rule inserted_new [OF i1 inserted_keep [OF k1 inserted_new [OF i2 inserted_new [OF i3
          inserted_keep [OF k2 inserted_new [OF i4 inserted_Nil]]]]]])
  show ?thesis
    using ignored_lines_no_effect
      [of "[''a.txt'' \<mapsto> ?c]" "''a.txt''" ?c "[''b.txt'' \<mapsto> ?c']" "''b.txt''" ?c', OF 1 2 3] .
qed

text \<open>
  C4. The vertex collection that \<^verbatim>\<open>parse_graph\<close> returns has one entry for every
  identifier declared, however many \<^verbatim>\<open>vertex\<close> lines declare it: it is the set of the
  declared identifiers, and its size is the number of distinct ones.
\<close>

theorem vertices_no_duplicates:
  assumes "fs file_path = Some content"
    and "parse_graph fs file_path = Inr (vs, es)"
  shows "vs = set (vertex_ids (readlines content)) \<and>
         card vs = length (remdups (vertex_ids (readlines content)))"
proof -
  from assms have "parse_lines ({}, []) (readlines content) = Inr (vs, es)"
    by (simp add: parse_graph_def)
  from parse_lines_Inr [OF this] have "vs = set (vertex_ids (readlines content))" by simp
  then show ?thesis by (simp add: List.card_set)
qed

theorem vertices_no_duplicates_witness:
  "parse_graph [''g'' \<mapsto> ''vertex A\<newline>vertex A\<newline>vertex B\<newline>vertex A\<newline>''] ''g''
     = Inr ({''A'', ''B''}, []) \<and>
   vertex_ids (readlines ''vertex A\<newline>vertex A\<newline>vertex B\<newline>vertex A\<newline>'')
     = [''A'', ''A'', ''B'', ''A''] \<and>
   card {''A'', ''B''} = length (remdups [''A'', ''A'', ''B'', ''A''])"
proof -
  let ?c = "''vertex A\<newline>vertex A\<newline>vertex B\<newline>vertex A\<newline>''"
  have 1: "[''g'' \<mapsto> ?c] ''g'' = Some ?c" by simp
  have 2: "parse_graph [''g'' \<mapsto> ?c] ''g'' = Inr ({''A'', ''B''}, [])"
    by (simp add: eval_defs insert_commute)
  have 3: "vertex_ids (readlines ?c) = [''A'', ''A'', ''B'', ''A'']"
    by (simp add: vertex_ids_def List.map_filter_simps readlines_def LF_def CR_def line_defs)
  have "card {''A'', ''B''} = length (remdups (vertex_ids (readlines ?c)))"
    using vertices_no_duplicates [of "[''g'' \<mapsto> ?c]" "''g''" ?c "{''A'', ''B''}" "[]", OF 1 2]
    by (rule conjunct2)
  then have 4: "card {''A'', ''B''} = length (remdups [''A'', ''A'', ''B'', ''A''])"
    by (simp only: 3)
  from 2 3 4 show ?thesis by (intro conjI)
qed

text \<open>
  C5. Edges are not deduplicated: the edge sequence that \<^verbatim>\<open>parse_graph\<close> returns has as
  many entries as the file has \<^verbatim>\<open>edge\<close> lines, and the pair \<open>(a, b)\<close> occurs in it as
  many times as there are \<^verbatim>\<open>edge\<close> lines with the arguments \<open>a\<close> and \<open>b\<close>.
\<close>

theorem edges_not_deduplicated:
  assumes "fs file_path = Some content"
    and "parse_graph fs file_path = Inr (vs, es)"
  shows "length es = length (filter is_edge_line (readlines content)) \<and>
         count_list es (a, b) =
           length (filter (\<lambda>l. is_edge_line l \<and> edge_of l = Some (a, b)) (readlines content))"
proof -
  let ?ls = "readlines content"
  from assms have "parse_lines ({}, []) ?ls = Inr (vs, es)"
    by (simp add: parse_graph_def)
  from parse_lines_Inr [OF this]
  have eq: "map Some es = map edge_of (filter is_edge_line ?ls)" by simp
  have "length es = length (map Some es)" by simp
  also have "\<dots> = length (filter is_edge_line ?ls)" by (simp only: eq length_map)
  finally have len: "length es = length (filter is_edge_line ?ls)" .
  have "count_list es (a, b) = count_list (map Some es) (Some (a, b))"
    by (simp only: count_list_map_Some)
  also have "\<dots> = length (filter (\<lambda>l. edge_of l = Some (a, b)) (filter is_edge_line ?ls))"
    by (simp only: eq count_list_map_filter)
  also have "\<dots> = length (filter (\<lambda>l. is_edge_line l \<and> edge_of l = Some (a, b)) ?ls)"
    by (simp add: conj_commute)
  finally show ?thesis using len by simp
qed

theorem edges_not_deduplicated_witness:
  "parse_graph [''g'' \<mapsto> ''edge a b\<newline>edge a b\<newline>vertex a\<newline>edge a b''] ''g''
     = Inr ({''a''}, [(''a'', ''b''), (''a'', ''b''), (''a'', ''b'')]) \<and>
   length (filter is_edge_line (readlines ''edge a b\<newline>edge a b\<newline>vertex a\<newline>edge a b''))
     = 3 \<and>
   length [(''a'', ''b''), (''a'', ''b''), (''a'', ''b'')] =
     length (filter is_edge_line (readlines ''edge a b\<newline>edge a b\<newline>vertex a\<newline>edge a b'')) \<and>
   count_list [(''a'', ''b''), (''a'', ''b''), (''a'', ''b'')] (''a'', ''b'') =
     length (filter (\<lambda>l. is_edge_line l \<and> edge_of l = Some (''a'', ''b''))
       (readlines ''edge a b\<newline>edge a b\<newline>vertex a\<newline>edge a b''))"
proof -
  let ?c = "''edge a b\<newline>edge a b\<newline>vertex a\<newline>edge a b''"
  have 1: "[''g'' \<mapsto> ?c] ''g'' = Some ?c" by simp
  have 2: "parse_graph [''g'' \<mapsto> ?c] ''g''
      = Inr ({''a''}, [(''a'', ''b''), (''a'', ''b''), (''a'', ''b'')])"
    by (simp add: eval_defs)
  have 3: "length (filter is_edge_line (readlines ?c)) = 3"
    by (simp add: readlines_def LF_def CR_def line_defs)
  note 4 = edges_not_deduplicated
    [of "[''g'' \<mapsto> ?c]" "''g''" ?c "{''a''}" "[(''a'', ''b''), (''a'', ''b''), (''a'', ''b'')]"
        "''a''" "''b''", OF 1 2]
  show ?thesis by (rule conjI [OF 2 conjI [OF 3 4]])
qed

text \<open>
  C6. The edge sequence that \<^verbatim>\<open>parse_graph\<close> returns lists, in the order of the
  \<^verbatim>\<open>edge\<close> lines of the file, the pair of the first and the second argument of each
  line.
\<close>

theorem edges_in_file_order:
  assumes "fs file_path = Some content"
    and "parse_graph fs file_path = Inr (vs, es)"
  shows "map Some es = map edge_of (filter is_edge_line (readlines content))"
proof -
  from assms have "parse_lines ({}, []) (readlines content) = Inr (vs, es)"
    by (simp add: parse_graph_def)
  from parse_lines_Inr [OF this] show ?thesis by simp
qed

theorem edges_in_file_order_witness:
  "parse_graph [''g'' \<mapsto> ''edge b a\<newline>vertex a\<newline>edge a b\<newline>edge c a\<newline>''] ''g''
     = Inr ({''a''}, [(''b'', ''a''), (''a'', ''b''), (''c'', ''a'')]) \<and>
   map Some [(''b'', ''a''), (''a'', ''b''), (''c'', ''a'')] =
     map edge_of (filter is_edge_line
       (readlines ''edge b a\<newline>vertex a\<newline>edge a b\<newline>edge c a\<newline>''))"
proof -
  let ?c = "''edge b a\<newline>vertex a\<newline>edge a b\<newline>edge c a\<newline>''"
  have 1: "[''g'' \<mapsto> ?c] ''g'' = Some ?c" by simp
  have 2: "parse_graph [''g'' \<mapsto> ?c] ''g''
      = Inr ({''a''}, [(''b'', ''a''), (''a'', ''b''), (''c'', ''a'')])"
    by (simp add: eval_defs)
  note 3 = edges_in_file_order
    [of "[''g'' \<mapsto> ?c]" "''g''" ?c "{''a''}" "[(''b'', ''a''), (''a'', ''b''), (''c'', ''a'')]",
     OF 1 2]
  from 2 3 show ?thesis by (rule conjI)
qed

text \<open>
  C7. When no line of the file lacks a required token, \<^verbatim>\<open>parse_graph\<close> returns, and a
  line \<^verbatim>\<open>edge a b\<close> has its pair \<open>(a, b)\<close> in the returned edge sequence whether or not
  \<open>a\<close> and \<open>b\<close> were declared by a \<^verbatim>\<open>vertex\<close> line: the endpoints are not checked
  against the vertex set.
\<close>

theorem undeclared_endpoints_accepted:
  assumes "fs file_path = Some content"
    and "\<forall>l \<in> set (readlines content). \<not> malformed l"
    and "line \<in> set (readlines content)"
    and "parts line = ''edge'' # a # b # extra"
  shows "\<exists>vs es. parse_graph fs file_path = Inr (vs, es) \<and> (a, b) \<in> set es"
proof -
  let ?ls = "readlines content"
  from parse_lines_wf [OF assms(2)] obtain vs es where
    p: "parse_lines ({}, []) ?ls = Inr (vs, es)" by (metis surj_pair)
  from parse_lines_Inr [OF p]
  have eq: "map Some es = map edge_of (filter is_edge_line ?ls)" by simp
  from assms(4) have "is_edge_line line" and "edge_of line = Some (a, b)"
    by (simp_all add: is_edge_line_def edge_of_def)
  with assms(3) have "Some (a, b) \<in> set (map edge_of (filter is_edge_line ?ls))"
    by force
  then have "Some (a, b) \<in> set (map Some es)" by (simp only: eq)
  then have "(a, b) \<in> set es" by auto
  with p assms(1) show ?thesis by (simp add: parse_graph_def)
qed

theorem undeclared_endpoints_accepted_witness:
  "parse_graph [''g'' \<mapsto> ''vertex A\<newline>edge X Y\<newline>''] ''g'' = Inr ({''A''}, [(''X'', ''Y'')]) \<and>
   ''X'' \<notin> {''A''} \<and> ''Y'' \<notin> {''A''} \<and>
   (\<exists>vs es. parse_graph [''g'' \<mapsto> ''vertex A\<newline>edge X Y\<newline>''] ''g'' = Inr (vs, es) \<and>
      (''X'', ''Y'') \<in> set es)"
proof -
  let ?c = "''vertex A\<newline>edge X Y\<newline>''"
  have 1: "[''g'' \<mapsto> ?c] ''g'' = Some ?c" by simp
  have 2: "\<forall>l \<in> set (readlines ?c). \<not> malformed l"
    by (simp add: readlines_def LF_def CR_def malformed_def line_defs)
  have 3: "''edge X Y\<newline>'' \<in> set (readlines ?c)"
    by (simp add: readlines_def LF_def CR_def)
  have 4: "parts ''edge X Y\<newline>'' = ''edge'' # ''X'' # ''Y'' # []"
    by (simp add: line_defs)
  have 5: "parse_graph [''g'' \<mapsto> ?c] ''g'' = Inr ({''A''}, [(''X'', ''Y'')])"
    by (simp add: eval_defs)
  have 6: "''X'' \<notin> {''A''}" by simp
  have 7: "''Y'' \<notin> {''A''}" by simp
  note 8 = undeclared_endpoints_accepted
    [of "[''g'' \<mapsto> ?c]" "''g''" ?c "''edge X Y\<newline>''" "''X''" "''Y''" "[]", OF 1 2 3 4]
  show ?thesis by (rule conjI [OF 5 conjI [OF 6 conjI [OF 7 8]]])
qed

text \<open>
  C9. Whenever the file has a line whose only token is \<^verbatim>\<open>vertex\<close>, \<^verbatim>\<open>parse_graph\<close>
  fails with an \<^verbatim>\<open>IndexError\<close>, as it does for an \<^verbatim>\<open>edge\<close> line with a missing
  argument: the line is not ignored.
\<close>

theorem vertex_missing_identifier_fails:
  assumes "fs file_path = Some content"
    and "line \<in> set (readlines content)"
    and "split (strip line) = [''vertex'']"
  shows "parse_graph fs file_path = Inl IndexError"
proof -
  from assms(3) have "process_line ({}, []) line = Inl IndexError"
    by (simp add: process_line_vertex_short parts_def)
  with assms(2) have "parse_lines ({}, []) (readlines content) = Inl IndexError"
    by (rule parse_lines_fails)
  with assms(1) show ?thesis by (simp add: parse_graph_def)
qed

theorem vertex_missing_identifier_fails_witness:
  "parse_graph [''graph.txt'' \<mapsto> ''vertex A\<newline>  vertex \<newline>edge A A\<newline>''] ''graph.txt''
     = Inl IndexError"
proof -
  let ?c = "''vertex A\<newline>  vertex \<newline>edge A A\<newline>''"
  have 1: "[''graph.txt'' \<mapsto> ?c] ''graph.txt'' = Some ?c" by simp
  have 2: "''  vertex \<newline>'' \<in> set (readlines ?c)"
    by (simp add: readlines_def LF_def CR_def)
  have 3: "split (strip ''  vertex \<newline>'') = [''vertex'']"
    by (simp add: split_def strip_def isspace_def)
  show ?thesis
    using vertex_missing_identifier_fails
      [of "[''graph.txt'' \<mapsto> ?c]" "''graph.txt''" ?c "''  vertex \<newline>''", OF 1 2 3] .
qed

text \<open>
  C10. Tokens beyond the required ones are ignored: a line \<^verbatim>\<open>vertex a extra...\<close> adds
  only \<open>a\<close> to the vertex set, a line \<^verbatim>\<open>edge b c extra...\<close> appends only \<open>(b, c)\<close>
  to the edge sequence, and two files whose lines agree on the required tokens give the
  same result, failure included.
\<close>

theorem surplus_tokens_ignored:
  "(parts l = ''vertex'' # a # extra \<longrightarrow>
      process_line (vs, es) l = Inr (insert a vs, es)) \<and>
   (parts l' = ''edge'' # b # c # extra' \<longrightarrow>
      process_line (vs, es) l' = Inr (vs, es @ [(b, c)])) \<and>
   (fs file_path = Some content \<and> fs' file_path' = Some content' \<and>
    map required (readlines content) = map required (readlines content') \<longrightarrow>
      parse_graph fs file_path = parse_graph fs' file_path')"
proof (intro conjI impI)
  assume "parts l = ''vertex'' # a # extra"
  then show "process_line (vs, es) l = Inr (insert a vs, es)"
    by (rule process_line_vertex)
next
  assume "parts l' = ''edge'' # b # c # extra'"
  then show "process_line (vs, es) l' = Inr (vs, es @ [(b, c)])"
    by (rule process_line_edge)
next
  assume "fs file_path = Some content \<and> fs' file_path' = Some content' \<and>
    map required (readlines content) = map required (readlines content')"
  then show "parse_graph fs file_path = parse_graph fs' file_path'"
    by (simp add: parse_graph_def parse_lines_required [of "readlines content" "readlines content'"])
qed

theorem surplus_tokens_ignored_witness:
  "process_line ({''z''}, [(''z'', ''z'')]) ''vertex a x y\<newline>''
     = Inr ({''a'', ''z''}, [(''z'', ''z'')]) \<and>
   process_line ({''z''}, [(''z'', ''z'')]) ''edge a b c d\<newline>''
     = Inr ({''z''}, [(''z'', ''z''), (''a'', ''b'')]) \<and>
   parse_graph [''g'' \<mapsto> ''vertex a x y\<newline>edge a b c d\<newline>''] ''g''
     = parse_graph [''h'' \<mapsto> ''vertex a\<newline>edge a b\<newline>''] ''h''"
proof -
  let ?c = "''vertex a x y\<newline>edge a b c d\<newline>''"
  let ?c' = "''vertex a\<newline>edge a b\<newline>''"
  note t = surplus_tokens_ignored
    [of "''vertex a x y\<newline>''" "''a''" "[''x'', ''y'']" "{''z''}" "[(''z'', ''z'')]"
        "''edge a b c d\<newline>''" "''a''" "''b''" "[''c'', ''d'']"
        "[''g'' \<mapsto> ?c]" "''g''" ?c "[''h'' \<mapsto> ?c']" "''h''" ?c']
  have 1: "parts ''vertex a x y\<newline>'' = ''vertex'' # ''a'' # [''x'', ''y'']"
    by (simp add: line_defs)
  have 2: "parts ''edge a b c d\<newline>'' = ''edge'' # ''a'' # ''b'' # [''c'', ''d'']"
    by (simp add: line_defs)
  have 3: "[''g'' \<mapsto> ?c] ''g'' = Some ?c \<and> [''h'' \<mapsto> ?c'] ''h'' = Some ?c' \<and>
    map required (readlines ?c) = map required (readlines ?c')"
    by (simp add: readlines_def LF_def CR_def required_def line_defs)
  from t [THEN conjunct1, THEN mp, OF 1]
  have a: "process_line ({''z''}, [(''z'', ''z'')]) ''vertex a x y\<newline>''
      = Inr ({''a'', ''z''}, [(''z'', ''z'')])" by simp
  from t [THEN conjunct2, THEN conjunct1, THEN mp, OF 2]
  have b: "process_line ({''z''}, [(''z'', ''z'')]) ''edge a b c d\<newline>''
      = Inr ({''z''}, [(''z'', ''z''), (''a'', ''b'')])" by simp
  note c = t [THEN conjunct2, THEN conjunct2, THEN mp, OF 3]
  show ?thesis by (rule conjI [OF a conjI [OF b c]])
qed

end
